theory Spec2Isabelle
  imports Main
begin

section \<open>Values, promises and loaders\<close>

text \<open>
  The class \<open>Resource\<close> and the function \<open>createResourceGroup\<close> are embedded over an
  explicit store. Objects live in heaps (lists indexed by address): one heap of
  \<open>Resource\<close> instances, one of promises, one of the \<open>Map\<close>s that the closures returned
  by \<open>createResourceGroup\<close> capture. A method takes the store and the address of
  \<open>this\<close> and gives back a completion (a returned or a thrown value) and the new store.
\<close>

type_synonym pid = nat
type_synonym rid = nat
type_synonym gid = nat

text \<open>
  A JavaScript value: \<open>null\<close>, \<open>undefined\<close>, an opaque value that is neither (a payload,
  an \<open>Error\<close> object), or a reference to a promise.
\<close>

datatype 'a jsval = JNull | JUndefined | JVal 'a | JPromise pid

text \<open>The loose comparison \<open>v == null\<close>, true of \<open>null\<close> and of \<open>undefined\<close> only.\<close>

fun nullish :: "'a jsval \<Rightarrow> bool" where
  "nullish JNull = True"
| "nullish JUndefined = True"
| "nullish (JVal x) = False"
| "nullish (JPromise p) = False"

datatype 'a completion = Return "'a jsval" | Throw "'a jsval"

datatype 'a pstate = Pending | Fulfilled "'a jsval" | Rejected "'a jsval"

text \<open>
  A loader is a function \<open>() => Promise<T>\<close> supplied by the caller. An invocation either
  throws synchronously or returns a promise, which the environment settles later. The
  loader's name is its identity; what an invocation does may depend on how many loader
  invocations the store has seen before.

  The loaders of this model are not re-entrant: while it runs, a loader does not call
  \<open>load()\<close> on the \<open>Resource\<close> that is invoking it. In the source such a call would
  find \<open>this.promise\<close> still \<open>null\<close>, because \<open>load\<close> assigns the field only after
  \<open>this.loader()\<close> has returned, and would invoke the loader once more. Every statement
  below about loader invocations is a statement about loaders that are not re-entrant.
\<close>

datatype 'a loader_outcome = LoaderThrows "'a jsval" | LoaderReturnsPromise

datatype 'a loader = Loader (loader_name: string) (loader_body: "nat \<Rightarrow> 'a loader_outcome")

datatype 'a settlement = Resolves "'a jsval" | Rejects "'a jsval"

section \<open>The store\<close>

text \<open>The fields of \<open>class Resource\<close>, with their initial values in \<open>new_Resource\<close>.\<close>

record 'a Resource =
  error :: "'a jsval"
  promise :: "'a jsval"
  result :: "'a jsval"
  loader :: "'a loader"

text \<open>
  A promise cell stands for the promise \<open>this.loader().then(...).catch(...)\<close> that
  \<open>load\<close> builds: its state, and the \<open>Resource\<close> that the two callbacks close over.
  The cell is \<open>Pending\<close> as long as the loader's own promise is unsettled.
\<close>

record 'a cell =
  state :: "'a pstate"
  this_ref :: rid

text \<open>
  \<open>calls\<close> logs every invocation of a loader (the \<open>Resource\<close> whose \<open>load\<close> made it and
  the loader's name); \<open>console\<close> is the output of \<open>console.log\<close>.
\<close>

record 'a world =
  objs :: "'a Resource list"
  promises :: "'a cell list"
  groups :: "(string \<rightharpoonup> rid) list"
  calls :: "(rid \<times> string) list"
  console :: "string list"

definition init :: "'a world" where
  "init = \<lparr>objs = [], promises = [], groups = [], calls = [], console = []\<rparr>"

section \<open>class Resource\<close>

text \<open>\<open>constructor(private readonly loader)\<close>: the three other fields start as \<open>null\<close>.\<close>

definition new_Resource :: "'a world \<Rightarrow> 'a loader \<Rightarrow> rid \<times> 'a world" where
  "new_Resource w l =
     (length (objs w),
      w\<lparr>objs := objs w @ [\<lparr>error = JNull, promise = JNull, result = JNull, loader = l\<rparr>]\<rparr>)"

text \<open>
  \<open>this.loader()\<close>: the invocation is logged, then the loader throws or returns. The
  loader is not re-entrant (see above), so the invocation touches no \<open>Resource\<close> and
  no promise.
\<close>

definition call_loader :: "'a world \<Rightarrow> rid \<Rightarrow> 'a loader_outcome \<times> 'a world" where
  "call_loader w this =
     (let l = loader (objs w ! this)
      in (loader_body l (length (calls w)),
          w\<lparr>calls := calls w @ [(this, loader_name l)]\<rparr>))"

text \<open>
  \<open>.then(...).catch(...)\<close> on the promise the loader returned: a fresh pending promise
  whose callbacks are bound to \<open>this\<close>.
\<close>

definition then_catch :: "'a world \<Rightarrow> rid \<Rightarrow> pid \<times> 'a world" where
  "then_catch w this =
     (length (promises w),
      w\<lparr>promises := promises w @ [\<lparr>state = Pending, this_ref = this\<rparr>]\<rparr>)"

text \<open>The callback of \<open>then\<close>: \<open>this.result = result; return result\<close>.\<close>

definition on_result :: "'a Resource \<Rightarrow> 'a jsval \<Rightarrow> 'a Resource \<times> 'a completion" where
  "on_result r v = (r\<lparr>result := v\<rparr>, Return v)"

text \<open>The callback of \<open>catch\<close>: \<open>this.error = error; throw error\<close>.\<close>

definition on_error :: "'a Resource \<Rightarrow> 'a jsval \<Rightarrow> 'a Resource \<times> 'a completion" where
  "on_error r e = (r\<lparr>error := e\<rparr>, Throw e)"

text \<open>
  \<open>load()\<close>. A synchronous throw of the loader leaves the method before
  \<open>this.promise = promise\<close> is reached.
\<close>

definition load :: "'a world \<Rightarrow> rid \<Rightarrow> 'a completion \<times> 'a world" where
  "load w this =
     (let promise0 = promise (objs w ! this)
      in if nullish promise0 then
           (case call_loader w this of
              (LoaderThrows x, w1) \<Rightarrow> (Throw x, w1)
            | (LoaderReturnsPromise, w1) \<Rightarrow>
                (let (p, w2) = then_catch w1 this;
                     w3 = w2\<lparr>objs := (objs w2)[this := (objs w2 ! this)\<lparr>promise := JPromise p\<rparr>]\<rparr>
                 in (Return (JPromise p), w3)))
         else (Return promise0, w))"

text \<open>\<open>get()\<close>: falling off the end of the method returns \<open>undefined\<close>.\<close>

definition get :: "'a world \<Rightarrow> rid \<Rightarrow> 'a completion \<times> 'a world" where
  "get w this =
     (if \<not> nullish (result (objs w ! this)) then (Return (result (objs w ! this)), w)
      else (Return JUndefined, w))"

text \<open>\<open>read()\<close>.\<close>

definition read :: "'a world \<Rightarrow> rid \<Rightarrow> 'a completion \<times> 'a world" where
  "read w this =
     (if \<not> nullish (result (objs w ! this)) then (Return (result (objs w ! this)), w)
      else if \<not> nullish (error (objs w ! this)) then (Throw (error (objs w ! this)), w)
      else (Throw (promise (objs w ! this)), w))"

text \<open>
  The loader's promise behind the pending cell \<open>p\<close> settles and the callbacks registered
  by \<open>load\<close> run: on fulfilment the callback of \<open>then\<close>, whose return value fulfils the
  chained promise; on rejection the callback of \<open>catch\<close>, whose throw rejects it. A
  promise settles once: a cell that is not pending is left alone. The settlement and the
  two callbacks are one step of the model.
\<close>

definition settle :: "'a world \<Rightarrow> pid \<Rightarrow> 'a settlement \<Rightarrow> 'a world" where
  "settle w p s =
     (if p < length (promises w) \<and> state (promises w ! p) = Pending then
        (let this = this_ref (promises w ! p);
             (r, c) = (case s of Resolves v \<Rightarrow> on_result (objs w ! this) v
                               | Rejects e \<Rightarrow> on_error (objs w ! this) e);
             st = (case c of Return v \<Rightarrow> Fulfilled v | Throw e \<Rightarrow> Rejected e)
         in w\<lparr>objs := (objs w)[this := r],
              promises := (promises w)[p := (promises w ! p)\<lparr>state := st\<rparr>]\<rparr>)
      else w)"

section \<open>createResourceGroup\<close>

text \<open>\<open>createResourceGroup()\<close> allocates the \<open>Map\<close> that the returned closure captures.\<close>

definition createResourceGroup :: "'a world \<Rightarrow> gid \<times> 'a world" where
  "createResourceGroup w = (length (groups w), w\<lparr>groups := groups w @ [Map.empty]\<rparr>)"

text \<open>
  The closure \<open>(id, loader) => Resource\<close> of the group \<open>g\<close>. \<open>Map.get\<close> gives
  \<open>undefined\<close> for an absent key and the stored \<open>Resource\<close> otherwise.
\<close>

definition group_get :: "'a world \<Rightarrow> gid \<Rightarrow> string \<Rightarrow> 'a loader \<Rightarrow> rid \<times> 'a world" where
  "group_get w g key l =
     (let w1 = w\<lparr>console := console w @ [key]\<rparr>
      in case (groups w1 ! g) key of
           None \<Rightarrow>
             (let (resource, w2) = new_Resource w1 l;
                  w3 = w2\<lparr>groups := (groups w2)[g := (groups w2 ! g)(key \<mapsto> resource)]\<rparr>
              in (resource, w3))
         | Some resource \<Rightarrow> (resource, w1))"

section \<open>Histories\<close>

text \<open>
  What callers and the environment can do to a store, one event at a time. A method is
  called on an object that exists, so an event that names an address outside its heap
  does nothing.
\<close>

datatype 'a event =
    New "'a loader"
  | Load rid
  | Get rid
  | Read rid
  | Settle pid "'a settlement"
  | CreateGroup
  | GroupGet gid string "'a loader"

fun step :: "'a world \<Rightarrow> 'a event \<Rightarrow> 'a world" where
  "step w (New l) = snd (new_Resource w l)"
| "step w (Load this) = (if this < length (objs w) then snd (load w this) else w)"
| "step w (Get this) = (if this < length (objs w) then snd (get w this) else w)"
| "step w (Read this) = (if this < length (objs w) then snd (read w this) else w)"
| "step w (Settle p s) = settle w p s"
| "step w CreateGroup = snd (createResourceGroup w)"
| "step w (GroupGet g key l) = (if g < length (groups w) then snd (group_get w g key l) else w)"

fun run :: "'a world \<Rightarrow> 'a event list \<Rightarrow> 'a world" where
  "run w [] = w"
| "run w (e # es) = run (step w e) es"

text \<open>How often the loader of a \<open>Resource\<close> has been invoked.\<close>

definition invocations :: "'a world \<Rightarrow> rid \<Rightarrow> nat" where
  "invocations w this = length (filter (\<lambda>c. fst c = this) (calls w))"

section \<open>Well-formed stores\<close>

text \<open>
  The invariant of every store that a history builds from \<open>init\<close>. The promise cells
  whose callbacks are bound to a \<open>Resource\<close>:
\<close>

definition owned :: "'a cell list \<Rightarrow> rid \<Rightarrow> pid set" where
  "owned ps this = {q. q < length ps \<and> this_ref (ps ! q) = this}"

text \<open>What the fields \<open>result\<close> and \<open>error\<close> hold for each state of the promise.\<close>

fun agrees :: "'a pstate \<Rightarrow> 'a Resource \<Rightarrow> bool" where
  "agrees Pending r \<longleftrightarrow> result r = JNull \<and> error r = JNull"
| "agrees (Fulfilled v) r \<longleftrightarrow> result r = v \<and> error r = JNull"
| "agrees (Rejected e) r \<longleftrightarrow> result r = JNull \<and> error r = e"

text \<open>
  A \<open>Resource\<close> either has no promise, no value, no error and no cell bound to it, or
  its \<open>promise\<close> field is the one cell bound to it and its fields agree with the cell.
\<close>

definition res_ok :: "'a cell list \<Rightarrow> rid \<Rightarrow> 'a Resource \<Rightarrow> bool" where
  "res_ok ps this r \<longleftrightarrow>
     (promise r = JNull \<and> result r = JNull \<and> error r = JNull \<and> owned ps this = {}) \<or>
     (\<exists>p. promise r = JPromise p \<and> owned ps this = {p} \<and> agrees (state (ps ! p)) r)"

text \<open>
  Cells are bound to existing objects, every object is as above, the log names existing
  objects and their own loaders, and the groups hold existing objects.
\<close>

definition world_ok :: "'a world \<Rightarrow> bool" where
  "world_ok w \<longleftrightarrow>
     (\<forall>q < length (promises w). this_ref (promises w ! q) < length (objs w)) \<and>
     (\<forall>this < length (objs w). res_ok (promises w) this (objs w ! this)) \<and>
     (\<forall>c \<in> set (calls w). fst c < length (objs w) \<and> snd c = loader_name (loader (objs w ! fst c))) \<and>
     (\<forall>g < length (groups w). \<forall>r \<in> ran (groups w ! g). r < length (objs w))"

section \<open>Example loaders\<close>

text \<open>Two loaders that return a promise whenever they are invoked, and one that throws.\<close>

definition loaderA :: "string loader" where
  "loaderA = Loader ''loaderA'' (\<lambda>n. LoaderReturnsPromise)"

definition loaderB :: "string loader" where
  "loaderB = Loader ''loaderB'' (\<lambda>n. LoaderReturnsPromise)"

definition thrower :: "string loader" where
  "thrower = Loader ''thrower'' (\<lambda>n. LoaderThrows (JVal ''boom''))"

section \<open>The invariant holds along every history\<close>

lemma owned_append:
  "owned (ps @ [c]) this = (if this_ref c = this then insert (length ps) (owned ps this) else owned ps this)"
  by (auto simp: owned_def nth_append less_Suc_eq)

lemma this_ref_state_update:
  "this_ref (ps[p := (ps ! p)\<lparr>state := st\<rparr>] ! q) = this_ref (ps ! q)"
  by (cases "p < length ps"; cases "q = p") (simp_all add: list_update_beyond)

lemma owned_state_update:
  "owned (ps[p := (ps ! p)\<lparr>state := st\<rparr>]) this = owned ps this"
proof -
  have "this_ref (ps[p := (ps ! p)\<lparr>state := st\<rparr>] ! q) = this_ref (ps ! q)" if "q < length ps" for q
    using that by (cases "q = p") simp_all
  then show ?thesis by (auto simp: owned_def)
qed

lemma owned_less: "q \<in> owned ps this \<Longrightarrow> q < length ps"
  by (simp add: owned_def)

lemma owned_bound: "\<forall>q < length ps. this_ref (ps ! q) < n \<Longrightarrow> n \<le> this \<Longrightarrow> owned ps this = {}"
  by (auto simp: owned_def)

lemma world_ok_init: "world_ok init"
  by (simp add: world_ok_def init_def)

lemma load_started:
  "\<not> nullish (promise (objs w ! this)) \<Longrightarrow> load w this = (Return (promise (objs w ! this)), w)"
  by (simp add: load_def)

lemma load_throws:
  "nullish (promise (objs w ! this)) \<Longrightarrow>
   loader_body (loader (objs w ! this)) (length (calls w)) = LoaderThrows x \<Longrightarrow>
   load w this = (Throw x, w\<lparr>calls := calls w @ [(this, loader_name (loader (objs w ! this)))]\<rparr>)"
  by (simp add: load_def call_loader_def)

lemma load_returns:
  "nullish (promise (objs w ! this)) \<Longrightarrow>
   loader_body (loader (objs w ! this)) (length (calls w)) = LoaderReturnsPromise \<Longrightarrow>
   load w this =
     (Return (JPromise (length (promises w))),
      w\<lparr>calls := calls w @ [(this, loader_name (loader (objs w ! this)))],
        promises := promises w @ [\<lparr>state = Pending, this_ref = this\<rparr>],
        objs := (objs w)[this := (objs w ! this)\<lparr>promise := JPromise (length (promises w))\<rparr>]\<rparr>)"
  by (simp add: load_def call_loader_def then_catch_def)

lemma world_ok_new: "world_ok w \<Longrightarrow> world_ok (snd (new_Resource w l))"
  unfolding world_ok_def new_Resource_def 
  by (auto simp: nth_append less_Suc_eq res_ok_def owned_bound)

lemma world_ok_create: "world_ok w \<Longrightarrow> world_ok (snd (createResourceGroup w))"
  unfolding world_ok_def createResourceGroup_def
  by (auto simp: nth_append less_Suc_eq)

lemma res_ok_nullish:
  "res_ok ps this r \<Longrightarrow> nullish (promise r) \<Longrightarrow>
     promise r = JNull \<and> result r = JNull \<and> error r = JNull \<and> owned ps this = {}"
  by (auto simp: res_ok_def)

lemma res_ok_append_other:
  "res_ok ps this r \<Longrightarrow> this_ref c \<noteq> this \<Longrightarrow> res_ok (ps @ [c]) this r"
  unfolding res_ok_def owned_append
  by (auto simp: nth_append dest: owned_less [of _ ps this])

lemma world_ok_load:
  assumes ok: "world_ok w" and bound: "this < length (objs w)"
  shows "world_ok (snd (load w this))"
proof (cases "nullish (promise (objs w ! this))")
  case False
  then show ?thesis using ok by (simp add: load_started)
next
  case True
  show ?thesis
  proof (cases "loader_body (loader (objs w ! this)) (length (calls w))")
    case (LoaderThrows x)
    then show ?thesis using ok True bound
      by (auto simp: load_throws world_ok_def)
  next
    case LoaderReturnsPromise
    define w' where "w' = snd (load w this)"
    have objs': "objs w' = (objs w)[this := (objs w ! this)\<lparr>promise := JPromise (length (promises w))\<rparr>]"
      and promises': "promises w' = promises w @ [\<lparr>state = Pending, this_ref = this\<rparr>]"
      and calls': "calls w' = calls w @ [(this, loader_name (loader (objs w ! this)))]"
      and groups': "groups w' = groups w"
      by (simp_all add: w'_def load_returns [OF True LoaderReturnsPromise])
    have r: "res_ok (promises w) this (objs w ! this)"
      using ok bound by (simp add: world_ok_def)
    note n = res_ok_nullish [OF r True]
    have 1: "\<forall>q < length (promises w'). this_ref (promises w' ! q) < length (objs w')"
      using ok bound by (auto simp: objs' promises' nth_append world_ok_def less_Suc_eq)
    have 2: "res_ok (promises w') t (objs w' ! t)" if t: "t < length (objs w')" for t
    proof (cases "t = this")
      case True
      then show ?thesis using n bound
        by (simp add: objs' promises' res_ok_def owned_append)
    next
      case False
      have "res_ok (promises w) t (objs w ! t)" using ok t by (simp add: world_ok_def objs')
      then show ?thesis using False by (simp add: objs' promises' res_ok_append_other)
    qed
    have 3: "\<forall>c \<in> set (calls w'). fst c < length (objs w') \<and> snd c = loader_name (loader (objs w' ! fst c))"
      using ok bound by (auto simp: objs' calls' world_ok_def nth_list_update)
    have 4: "\<forall>g < length (groups w'). \<forall>r \<in> ran (groups w' ! g). r < length (objs w')"
      using ok by (auto simp: objs' groups' world_ok_def)
    show ?thesis
      unfolding w'_def [symmetric] world_ok_def using 1 2 3 4 by blast
  qed
qed


lemma settle_idle:
  "\<not> (p < length (promises w) \<and> state (promises w ! p) = Pending) \<Longrightarrow> settle w p s = w"
  by (auto simp: settle_def)

lemma settle_resolves:
  "p < length (promises w) \<Longrightarrow> state (promises w ! p) = Pending \<Longrightarrow>
   settle w p (Resolves v) =
     w\<lparr>objs := (objs w)[this_ref (promises w ! p) := (objs w ! this_ref (promises w ! p))\<lparr>result := v\<rparr>],
       promises := (promises w)[p := (promises w ! p)\<lparr>state := Fulfilled v\<rparr>]\<rparr>"
  by (simp add: settle_def on_result_def Let_def)

lemma settle_rejects:
  "p < length (promises w) \<Longrightarrow> state (promises w ! p) = Pending \<Longrightarrow>
   settle w p (Rejects e) =
     w\<lparr>objs := (objs w)[this_ref (promises w ! p) := (objs w ! this_ref (promises w ! p))\<lparr>error := e\<rparr>],
       promises := (promises w)[p := (promises w ! p)\<lparr>state := Rejected e\<rparr>]\<rparr>"
  by (simp add: settle_def on_error_def Let_def)

text \<open>The shape of a settlement, whichever way it goes.\<close>

lemma settle_shape:
  assumes "p < length (promises w)" "state (promises w ! p) = Pending"
  obtains r st where
    "settle w p s = w\<lparr>objs := (objs w)[this_ref (promises w ! p) := r],
                        promises := (promises w)[p := (promises w ! p)\<lparr>state := st\<rparr>]\<rparr>"
    "promise r = promise (objs w ! this_ref (promises w ! p))"
    "loader r = loader (objs w ! this_ref (promises w ! p))"
    "agrees Pending (objs w ! this_ref (promises w ! p)) \<longrightarrow> agrees st r"
    "st \<noteq> Pending"
proof (cases s)
  case (Resolves v)
  show ?thesis
    by (rule that [OF settle_resolves [OF assms, of v, folded Resolves]]) simp_all
next
  case (Rejects e)
  show ?thesis
    by (rule that [OF settle_rejects [OF assms, of e, folded Rejects]]) simp_all
qed

lemma world_ok_settle:
  assumes ok: "world_ok w"
  shows "world_ok (settle w p s)"
proof (cases "p < length (promises w) \<and> state (promises w ! p) = Pending")
  case False
  then show ?thesis using ok by (simp add: settle_idle)
next
  case True
  then have p: "p < length (promises w)" and pend: "state (promises w ! p) = Pending" by simp_all
  define this where "this = this_ref (promises w ! p)"
  define w' where "w' = settle w p s"
  obtain r st where
    w': "w' = w\<lparr>objs := (objs w)[this := r], promises := (promises w)[p := (promises w ! p)\<lparr>state := st\<rparr>]\<rparr>"
    and pr: "promise r = promise (objs w ! this)"
    and lr: "loader r = loader (objs w ! this)"
    and ag: "agrees Pending (objs w ! this) \<longrightarrow> agrees st r"
    unfolding w'_def this_def by (rule settle_shape [OF p pend, of s]) 
  have bound: "this < length (objs w)"
    using ok p by (simp add: world_ok_def this_def)
  have own: "p \<in> owned (promises w) this"
    using p by (simp add: owned_def this_def)
  have 1: "\<forall>q < length (promises w'). this_ref (promises w' ! q) < length (objs w')"
    using ok by (simp add: w' world_ok_def this_ref_state_update)
  have 2: "res_ok (promises w') t (objs w' ! t)" if t: "t < length (objs w')" for t
  proof -
    have old: "res_ok (promises w) t (objs w ! t)" using ok t by (simp add: world_ok_def w')
    show ?thesis
    proof (cases "t = this")
      case True
      from old own have "promise (objs w ! this) = JPromise p \<and> owned (promises w) this = {p}
          \<and> agrees (state (promises w ! p)) (objs w ! this)"
        by (auto simp: res_ok_def True)
      then show ?thesis using ag pr pend p bound
        by (simp add: True w' res_ok_def owned_state_update)
    next
      case False
      have "state ((promises w)[p := (promises w ! p)\<lparr>state := st\<rparr>] ! q) = state (promises w ! q)"
        if "owned (promises w) t = {q}" for q
      proof -
        have "q \<in> owned (promises w) t" using that by simp
        then have "q \<noteq> p" using False by (auto simp: owned_def this_def)
        then show ?thesis by simp
      qed
      then show ?thesis using old False
        by (auto simp: w' res_ok_def owned_state_update)
    qed
  qed
  have 3: "\<forall>c \<in> set (calls w'). fst c < length (objs w') \<and> snd c = loader_name (loader (objs w' ! fst c))"
    using ok bound lr by (auto simp: w' world_ok_def nth_list_update)
  have 4: "\<forall>g < length (groups w'). \<forall>r \<in> ran (groups w' ! g). r < length (objs w')"
    using ok by (auto simp: w' world_ok_def)
  show ?thesis
    unfolding w'_def [symmetric] world_ok_def using 1 2 3 4 by blast
qed

lemma group_get_present:
  "(groups w ! g) key = Some r \<Longrightarrow> group_get w g key l = (r, w\<lparr>console := console w @ [key]\<rparr>)"
  by (simp add: group_get_def)

lemma group_get_absent:
  "(groups w ! g) key = None \<Longrightarrow>
   group_get w g key l =
     (length (objs w),
      w\<lparr>console := console w @ [key],
        objs := objs w @ [\<lparr>error = JNull, promise = JNull, result = JNull, loader = l\<rparr>],
        groups := (groups w)[g := (groups w ! g)(key \<mapsto> length (objs w))]\<rparr>)"
  by (simp add: group_get_def new_Resource_def)

lemma world_ok_group_get:
  assumes ok: "world_ok w" and g: "g < length (groups w)"
  shows "world_ok (snd (group_get w g key l))"
proof (cases "(groups w ! g) key")
  case (Some r)
  then show ?thesis using ok by (simp add: group_get_present world_ok_def)
next
  case None
  have 4: "r < Suc (length (objs w))"
    if "g' < length (groups w)" "r \<in> ran ((groups w)[g := (groups w ! g)(key \<mapsto> length (objs w))] ! g')" for g' r
  proof (cases "g' = g")
    case True
    then have "r \<in> ran ((groups w ! g)(key \<mapsto> length (objs w)))" using that g by simp
    then have "r = length (objs w) \<or> r \<in> ran (groups w ! g)"
      by (auto simp: ran_def split: if_splits)
    then show ?thesis using ok g by (auto simp: world_ok_def less_Suc_eq)
  next
    case False
    then show ?thesis using that ok by (auto simp: world_ok_def less_Suc_eq)
  qed
  show ?thesis using ok 4
    unfolding group_get_absent [OF None] world_ok_def
    by (auto simp: nth_append less_Suc_eq res_ok_def owned_bound)
qed

lemma world_ok_step: "world_ok w \<Longrightarrow> world_ok (step w e)"
  by (cases e) (simp_all add: world_ok_new world_ok_load world_ok_settle world_ok_create
      world_ok_group_get get_def read_def)

lemma world_ok_run: "world_ok w \<Longrightarrow> world_ok (run w es)"
  by (induction es arbitrary: w) (simp_all add: world_ok_step)

section \<open>What a step leaves alone\<close>

lemma run_append: "run w (es @ es') = run (run w es) es'"
  by (induction es arbitrary: w) simp_all

lemma run_snoc: "run w (es @ [e]) = step (run w es) e"
  by (simp add: run_append)

lemma get_world: "snd (get w this) = w"
  by (simp add: get_def)

lemma read_world: "snd (read w this) = w"
  by (simp add: read_def)

lemma step_Get: "step w (Get this) = w"
  by (simp add: get_world)

lemma step_Read: "step w (Read this) = w"
  by (simp add: read_world)

lemma world_ok_reach: "world_ok (run init h)"
  by (simp add: world_ok_run world_ok_init)

text \<open>What a call of load does to the store, in one statement.\<close>

lemma load_cases:
  obtains
    (started) "\<not> nullish (promise (objs w ! t))" "load w t = (Return (promise (objs w ! t)), w)"
  | (throws) x where "nullish (promise (objs w ! t))"
      "loader_body (loader (objs w ! t)) (length (calls w)) = LoaderThrows x"
      "load w t = (Throw x, w\<lparr>calls := calls w @ [(t, loader_name (loader (objs w ! t)))]\<rparr>)"
  | (returns) "nullish (promise (objs w ! t))"
      "loader_body (loader (objs w ! t)) (length (calls w)) = LoaderReturnsPromise"
      "load w t =
         (Return (JPromise (length (promises w))),
          w\<lparr>calls := calls w @ [(t, loader_name (loader (objs w ! t)))],
            promises := promises w @ [\<lparr>state = Pending, this_ref = t\<rparr>],
            objs := (objs w)[t := (objs w ! t)\<lparr>promise := JPromise (length (promises w))\<rparr>]\<rparr>)"
proof (cases "nullish (promise (objs w ! t))")
  case False
  then show ?thesis using started load_started by blast
next
  case True
  show ?thesis
  proof (cases "loader_body (loader (objs w ! t)) (length (calls w))")
    case (LoaderThrows x)
    then show ?thesis using throws True load_throws by blast
  next
    case LoaderReturnsPromise
    then show ?thesis using returns True load_returns by blast
  qed
qed

text \<open>Objects are never removed, and the loader of an object never changes.\<close>

lemma step_keeps_loader:
  assumes "this < length (objs w)"
  shows "this < length (objs (step w e)) \<and> loader (objs (step w e) ! this) = loader (objs w ! this)"
proof (cases e)
  case (New l)
  then show ?thesis using assms by (simp add: new_Resource_def nth_append)
next
  case (Load t)
  show ?thesis
    by (cases rule: load_cases [of w t]) (use assms Load in \<open>auto simp: nth_list_update\<close>)
next
  case (Settle p s)
  show ?thesis
  proof (cases "p < length (promises w) \<and> state (promises w ! p) = Pending")
    case False
    then show ?thesis using assms Settle by (simp add: settle_idle)
  next
    case True
    then obtain r st where
      "settle w p s = w\<lparr>objs := (objs w)[this_ref (promises w ! p) := r],
                        promises := (promises w)[p := (promises w ! p)\<lparr>state := st\<rparr>]\<rparr>"
      "loader r = loader (objs w ! this_ref (promises w ! p))"
      using settle_shape [of p w s] by blast
    then show ?thesis using assms Settle
      by (cases "this_ref (promises w ! p) = this") auto
  qed
next
  case (GroupGet g key l)
  show ?thesis
    by (cases "(groups w ! g) key")
       (use assms GroupGet in \<open>auto simp: group_get_present group_get_absent nth_append\<close>)
qed (use assms in \<open>simp_all add: step_Get step_Read createResourceGroup_def del: step.simps(3,4)\<close>)

lemma run_keeps_loader:
  "this < length (objs w) \<Longrightarrow>
   this < length (objs (run w es)) \<and> loader (objs (run w es) ! this) = loader (objs w ! this)"
  by (induction es arbitrary: w) (simp_all add: step_keeps_loader)

text \<open>Only load on a Resource invokes its loader.\<close>

lemma step_invocations:
  "e \<noteq> Load this \<Longrightarrow> invocations (step w e) this = invocations w this"
proof (cases e)
  case (Load t)
  assume "e \<noteq> Load this"
  then have "t \<noteq> this" using Load by simp
  then show ?thesis
    by (cases rule: load_cases [of w t]) (use Load in \<open>auto simp: invocations_def\<close>)
next
  case (Settle p s)
  show ?thesis
  proof (cases "p < length (promises w) \<and> state (promises w ! p) = Pending")
    case False
    then show ?thesis using Settle by (simp add: settle_idle)
  next
    case True
    then obtain r st where
      "settle w p s = w\<lparr>objs := (objs w)[this_ref (promises w ! p) := r],
                        promises := (promises w)[p := (promises w ! p)\<lparr>state := st\<rparr>]\<rparr>"
      using settle_shape [of p w s] by blast
    then show ?thesis using Settle by (simp add: invocations_def)
  qed
next
  case (GroupGet g key l)
  show ?thesis
    by (cases "(groups w ! g) key")
       (use GroupGet in \<open>auto simp: group_get_present group_get_absent invocations_def\<close>)
qed (simp_all add: step_Get step_Read createResourceGroup_def new_Resource_def invocations_def del: step.simps(3,4))


text \<open>Only load on a Resource writes its promise field.\<close>

lemma step_promise:
  assumes "this < length (objs w)" "e \<noteq> Load this"
  shows "promise (objs (step w e) ! this) = promise (objs w ! this)"
proof (cases e)
  case (New l)
  then show ?thesis using assms by (simp add: new_Resource_def nth_append)
next
  case (Load t)
  then have "t \<noteq> this" using assms by simp
  then show ?thesis
    by (cases rule: load_cases [of w t]) (use assms Load in auto)
next
  case (Settle p s)
  show ?thesis
  proof (cases "p < length (promises w) \<and> state (promises w ! p) = Pending")
    case False
    then show ?thesis using Settle by (simp add: settle_idle)
  next
    case True
    then obtain r st where
      "settle w p s = w\<lparr>objs := (objs w)[this_ref (promises w ! p) := r],
                        promises := (promises w)[p := (promises w ! p)\<lparr>state := st\<rparr>]\<rparr>"
      "promise r = promise (objs w ! this_ref (promises w ! p))"
      using settle_shape [of p w s] by blast
    then show ?thesis using assms Settle
      by (cases "this_ref (promises w ! p) = this") auto
  qed
next
  case (GroupGet g key l)
  show ?thesis
    by (cases "(groups w ! g) key")
       (use assms GroupGet in \<open>auto simp: group_get_present group_get_absent nth_append\<close>)
qed (simp_all add: step_Get step_Read createResourceGroup_def del: step.simps(3,4))

text \<open>Once the promise field is set, it stays, and the loader is not invoked again.\<close>

lemma step_started:
  assumes "this < length (objs w)" "promise (objs w ! this) = JPromise p"
  shows "promise (objs (step w e) ! this) = JPromise p \<and>
         invocations (step w e) this = invocations w this"
proof (cases "e = Load this")
  case True
  then show ?thesis using assms by (simp add: load_started)
next
  case False
  then show ?thesis using assms by (simp add: step_promise step_invocations)
qed

lemma run_started:
  "this < length (objs w) \<Longrightarrow> promise (objs w ! this) = JPromise p \<Longrightarrow>
   promise (objs (run w es) ! this) = JPromise p \<and> invocations (run w es) this = invocations w this"
proof (induction es arbitrary: w)
  case Nil
  then show ?case by simp
next
  case (Cons e es)
  have "this < length (objs (step w e))" using Cons.prems step_keeps_loader by blast
  moreover have "promise (objs (step w e) ! this) = JPromise p"
    and "invocations (step w e) this = invocations w this"
    using step_started [OF Cons.prems] by simp_all
  ultimately show ?case using Cons.IH [of "step w e"] by simp
qed

text \<open>What the invariant says about a Resource whose promise field is set.\<close>

lemma res_ok_started:
  "res_ok ps this r \<Longrightarrow> promise r = JPromise p \<Longrightarrow>
   p < length ps \<and> this_ref (ps ! p) = this \<and> owned ps this = {p} \<and> agrees (state (ps ! p)) r"
  by (auto simp: res_ok_def owned_def)

lemma world_ok_started:
  assumes "world_ok w" "this < length (objs w)" "promise (objs w ! this) = JPromise p"
  shows "p < length (promises w)" "this_ref (promises w ! p) = this"
    "owned (promises w) this = {p}" "agrees (state (promises w ! p)) (objs w ! this)"
  using assms res_ok_started [of "promises w" this "objs w ! this" p]
  by (simp_all add: world_ok_def)

lemma world_ok_promise:
  assumes "world_ok w" "this < length (objs w)"
  shows "promise (objs w ! this) = JNull \<or> (\<exists>p. promise (objs w ! this) = JPromise p)"
  using assms by (auto simp: world_ok_def res_ok_def)

text \<open>A settled promise and its Resource are never written again.\<close>

lemma step_settled:
  assumes ok: "world_ok w" and bound: "this < length (objs w)"
    and pr: "promise (objs w ! this) = JPromise p" and st: "state (promises w ! p) \<noteq> Pending"
  shows "objs (step w e) ! this = objs w ! this \<and> promises (step w e) ! p = promises w ! p"
proof -
  note s = world_ok_started [OF ok bound pr]
  show ?thesis
  proof (cases e)
    case (New l)
    then show ?thesis using bound by (simp add: new_Resource_def nth_append)
  next
    case (Load t)
    show ?thesis
    proof (cases "t = this")
      case True
      then show ?thesis using Load pr by (simp add: load_started)
    next
      case False
      then show ?thesis
        by (cases rule: load_cases [of w t]) (use Load s(1) in \<open>auto simp: nth_append\<close>)
    qed
  next
    case (Settle q x)
    show ?thesis
    proof (cases "q < length (promises w) \<and> state (promises w ! q) = Pending")
      case False
      then show ?thesis using Settle by (simp add: settle_idle)
    next
      case True
      then have "q \<noteq> p" using st by auto
      moreover have "this_ref (promises w ! q) \<noteq> this"
      proof
        assume "this_ref (promises w ! q) = this"
        then have "q \<in> owned (promises w) this" using True by (simp add: owned_def)
        then show False using s(3) \<open>q \<noteq> p\<close> by simp
      qed
      moreover obtain r st' where
        "settle w q x = w\<lparr>objs := (objs w)[this_ref (promises w ! q) := r],
                          promises := (promises w)[q := (promises w ! q)\<lparr>state := st'\<rparr>]\<rparr>"
        using settle_shape [of q w x] True by blast
      ultimately show ?thesis using Settle by simp
    qed
  next
    case (GroupGet g key l)
    show ?thesis
      by (cases "(groups w ! g) key")
         (use bound GroupGet in \<open>auto simp: group_get_present group_get_absent nth_append\<close>)
  qed (simp_all add: step_Get step_Read createResourceGroup_def del: step.simps(3,4))
qed

lemma run_settled:
  "world_ok w \<Longrightarrow> this < length (objs w) \<Longrightarrow> promise (objs w ! this) = JPromise p \<Longrightarrow>
   state (promises w ! p) \<noteq> Pending \<Longrightarrow>
   objs (run w es) ! this = objs w ! this \<and> promises (run w es) ! p = promises w ! p"
proof (induction es arbitrary: w)
  case Nil
  then show ?case by simp
next
  case (Cons e es)
  have eq: "objs (step w e) ! this = objs w ! this" "promises (step w e) ! p = promises w ! p"
    using step_settled [OF Cons.prems] by simp_all
  have "world_ok (step w e)" using Cons.prems(1) by (rule world_ok_step)
  moreover have "this < length (objs (step w e))" using Cons.prems(2) step_keeps_loader by blast
  ultimately show ?case using Cons.IH [of "step w e"] Cons.prems eq by simp
qed


lemma run_invocations:
  "Load this \<notin> set es \<Longrightarrow> invocations (run w es) this = invocations w this"
  by (induction es arbitrary: w) (auto simp: step_invocations)

text \<open>An object that a step creates is fresh, and the step is not a load on it.\<close>

lemma step_creates:
  assumes "\<not> this < length (objs w)" "this < length (objs (step w e))"
  shows "promise (objs (step w e) ! this) = JNull \<and> e \<noteq> Load this"
proof (cases e)
  case (New l)
  then show ?thesis using assms by (auto simp: new_Resource_def nth_append less_Suc_eq)
next
  case (Load t)
  show ?thesis
    by (cases rule: load_cases [of w t]) (use assms Load in \<open>auto split: if_splits\<close>)
next
  case (Settle p s)
  show ?thesis
  proof (cases "p < length (promises w) \<and> state (promises w ! p) = Pending")
    case False
    then show ?thesis using assms Settle by (simp add: settle_idle)
  next
    case True
    then obtain r st where
      "settle w p s = w\<lparr>objs := (objs w)[this_ref (promises w ! p) := r],
                        promises := (promises w)[p := (promises w ! p)\<lparr>state := st\<rparr>]\<rparr>"
      using settle_shape [of p w s] by blast
    then show ?thesis using assms Settle by simp
  qed
next
  case (GroupGet g key l)
  show ?thesis
    by (cases "(groups w ! g) key")
       (use assms GroupGet in \<open>auto simp: group_get_present group_get_absent nth_append less_Suc_eq split: if_splits\<close>)
qed (use assms in \<open>simp_all add: step_Get step_Read createResourceGroup_def del: step.simps(3,4)\<close>)

lemma world_ok_unborn:
  "world_ok w \<Longrightarrow> \<not> this < length (objs w) \<Longrightarrow> invocations w this = 0"
  by (auto simp: world_ok_def invocations_def filter_empty_conv)

text \<open>A Resource without a promise is written by nothing but its own load.\<close>

lemma res_ok_unstarted:
  "world_ok w \<Longrightarrow> this < length (objs w) \<Longrightarrow> promise (objs w ! this) = JNull \<Longrightarrow>
   result (objs w ! this) = JNull \<and> error (objs w ! this) = JNull \<and> owned (promises w) this = {}"
  by (auto simp: world_ok_def res_ok_def)

text \<open>The binding of a key in a group is never replaced.\<close>

lemma step_keeps_binding:
  assumes "g < length (groups w)" "(groups w ! g) key = Some r"
  shows "g < length (groups (step w e)) \<and> (groups (step w e) ! g) key = Some r"
proof (cases e)
  case (Load t)
  show ?thesis
    by (cases rule: load_cases [of w t]) (use assms Load in auto)
next
  case (Settle p s)
  show ?thesis
  proof (cases "p < length (promises w) \<and> state (promises w ! p) = Pending")
    case False
    then show ?thesis using assms Settle by (simp add: settle_idle)
  next
    case True
    then obtain r st where
      "settle w p s = w\<lparr>objs := (objs w)[this_ref (promises w ! p) := r],
                        promises := (promises w)[p := (promises w ! p)\<lparr>state := st\<rparr>]\<rparr>"
      using settle_shape [of p w s] by blast
    then show ?thesis using assms Settle by simp
  qed
next
  case (GroupGet g' key' l)
  show ?thesis
    by (cases "(groups w ! g') key'")
       (use assms GroupGet in \<open>auto simp: group_get_present group_get_absent nth_list_update\<close>)
qed (use assms in \<open>simp_all add: step_Get step_Read createResourceGroup_def new_Resource_def nth_append del: step.simps(3,4)\<close>)

lemma run_keeps_binding:
  "g < length (groups w) \<Longrightarrow> (groups w ! g) key = Some r \<Longrightarrow>
   g < length (groups (run w es)) \<and> (groups (run w es) ! g) key = Some r"
  by (induction es arbitrary: w) (simp_all add: step_keeps_binding)

section \<open>Evaluating concrete histories\<close>

lemmas eval = init_def new_Resource_def load_def call_loader_def then_catch_def settle_def
  on_result_def on_error_def get_def read_def group_get_def createResourceGroup_def
  invocations_def Let_def loaderA_def loaderB_def thrower_def

section \<open>Facts shared by the claims\<close>

text \<open>The synchronous interface of a pending Resource.\<close>

lemma pending_probe:
  assumes "this < length (objs (run init h))"
    and "promise (objs (run init h) ! this) = JPromise p"
    and "state (promises (run init h) ! p) = Pending"
  shows "read (run init h) this = (Throw (JPromise p), run init h)"
    and "get (run init h) this = (Return JUndefined, run init h)"
proof -
  have "agrees (state (promises (run init h) ! p)) (objs (run init h) ! this)"
    using world_ok_started(4) [OF world_ok_reach assms(1,2)] .
  then show "read (run init h) this = (Throw (JPromise p), run init h)"
    and "get (run init h) this = (Return JUndefined, run init h)"
    using assms by (simp_all add: read_def get_def)
qed

text \<open>A settled Resource along a continued history.\<close>

lemma settled_forever:
  assumes bound: "this < length (objs (run init h))"
    and pr: "promise (objs (run init h) ! this) = JPromise p"
    and st: "state (promises (run init h) ! p) \<noteq> Pending"
  shows "objs (run init (h @ t)) ! this = objs (run init h) ! this"
    and "promises (run init (h @ t)) ! p = promises (run init h) ! p"
    and "invocations (run init (h @ t)) this = invocations (run init h) this"
    and "this < length (objs (run init (h @ t)))"
proof -
  show "objs (run init (h @ t)) ! this = objs (run init h) ! this"
    and "promises (run init (h @ t)) ! p = promises (run init h) ! p"
    using run_settled [OF world_ok_reach bound pr st, of t] by (simp_all add: run_append)
  show "invocations (run init (h @ t)) this = invocations (run init h) this"
    using run_started [OF bound pr, of t] by (simp add: run_append)
  show "this < length (objs (run init (h @ t)))"
    using run_keeps_loader [OF bound, of t] by (simp add: run_append)
qed

text \<open>A Resource that no load was called on has no promise.\<close>

lemma never_loaded:
  "this < length (objs (run init h)) \<Longrightarrow> Load this \<notin> set h \<Longrightarrow>
   promise (objs (run init h) ! this) = JNull"
proof (induction h rule: rev_induct)
  case Nil
  then show ?case by (simp add: init_def)
next
  case (snoc e h)
  have run: "run init (h @ [e]) = step (run init h) e" by (rule run_snoc)
  have e: "e \<noteq> Load this" and h: "Load this \<notin> set h" using snoc.prems(2) by auto
  show ?case
  proof (cases "this < length (objs (run init h))")
    case True
    then show ?thesis using snoc.IH h e by (simp add: run step_promise)
  next
    case False
    then show ?thesis using snoc.prems(1) step_creates unfolding run by blast
  qed
qed

text \<open>
  A Resource whose loader returns a promise at every invocation has either no promise
  and no invocation, or a promise and one invocation.
\<close>

lemma loaded_once:
  assumes "this < length (objs (run init h))"
    and "\<forall>n. loader_body (loader (objs (run init h) ! this)) n = LoaderReturnsPromise"
  shows "(promise (objs (run init h) ! this) = JNull \<and> invocations (run init h) this = 0) \<or>
         (\<exists>p. promise (objs (run init h) ! this) = JPromise p \<and> invocations (run init h) this = 1)"
  using assms
proof (induction h rule: rev_induct)
  case Nil
  then show ?case by (simp add: init_def)
next
  case (snoc e h)
  define w where "w = run init h"
  have run: "run init (h @ [e]) = step w e" unfolding w_def by (rule run_snoc)
  show ?case
  proof (cases "this < length (objs w)")
    case False
    have "promise (objs (step w e) ! this) = JNull" "e \<noteq> Load this"
      using step_creates [OF False] snoc.prems(1) unfolding run by simp_all
    moreover have "invocations w this = 0"
      using world_ok_unborn [OF world_ok_reach, of this h] False by (simp add: w_def)
    ultimately show ?thesis unfolding run by (simp add: step_invocations)
  next
    case True
    have "loader (objs (step w e) ! this) = loader (objs w ! this)"
      using step_keeps_loader [OF True] by simp
    then have body: "\<forall>n. loader_body (loader (objs w ! this)) n = LoaderReturnsPromise"
      using snoc.prems(2) unfolding run by simp
    then have IH: "(promise (objs w ! this) = JNull \<and> invocations w this = 0) \<or>
         (\<exists>p. promise (objs w ! this) = JPromise p \<and> invocations w this = 1)"
      using snoc.IH True unfolding w_def by simp
    show ?thesis
    proof (cases "e = Load this")
      case False
      then show ?thesis using IH True unfolding run
        by (simp add: step_promise step_invocations)
    next
      case e: True
      from IH show ?thesis
      proof
        assume u: "promise (objs w ! this) = JNull \<and> invocations w this = 0"
        then have "nullish (promise (objs w ! this))" by simp
        from load_returns [OF this] body
        show ?thesis using u True unfolding run by (simp add: e invocations_def)
      next
        assume "\<exists>p. promise (objs w ! this) = JPromise p \<and> invocations w this = 1"
        then show ?thesis using True unfolding run by (auto simp: e load_started)
      qed
    qed
  qed
qed

section \<open>The claims\<close>

text \<open>
  C1 (amended). Single flight, for a \<open>Resource\<close> whose loader returns a promise whenever it
  is invoked and is not re-entrant (it does not call \<open>load()\<close> on the \<open>Resource\<close> that
  is invoking it; the loaders of this model never do). At any point \<open>h\<close> of any history the loader has been invoked at most once.
  A call of \<open>load()\<close> at that point returns a handle \<open>p\<close>; from then on, after any further
  events \<open>t\<close> (calls of \<open>load\<close>, \<open>get\<close>, \<open>read\<close> in any interleaving with
  settlements and with other objects), the loader has been invoked exactly once, \<open>load()\<close>
  returns the same handle \<open>p\<close> and changes nothing, and once \<open>p\<close> has settled its outcome
  is the same at every later point \<open>t @ t'\<close>: all callers hold one handle and see one
  resolved value or one rejected error. Without the first condition the claim fails: a
  loader that throws synchronously is invoked by every call of \<open>load()\<close>. The second
  condition is needed on the source as well, where a loader that calls \<open>load()\<close> on its
  own \<open>Resource\<close> is invoked again by that nested call.
\<close>

theorem single_flight:
  assumes bound: "this < length (objs (run init h))"
    and body: "\<forall>n. loader_body (loader (objs (run init h) ! this)) n = LoaderReturnsPromise"
    and call: "load (run init h) this = (c, w')"
  shows "invocations (run init h) this \<le> 1 \<and>
         invocations (run w' t) this = 1 \<and>
         (\<exists>p. c = Return (JPromise p) \<and>
              load (run w' t) this = (Return (JPromise p), run w' t) \<and>
              (state (promises (run w' t) ! p) \<noteq> Pending \<longrightarrow>
                 state (promises (run w' (t @ t')) ! p) = state (promises (run w' t) ! p)))"
proof -
  have w': "w' = run init (h @ [Load this])"
    using call bound by (simp add: run_snoc)
  have bound': "this < length (objs w')"
    unfolding w' using step_keeps_loader [OF bound, of "Load this"] by (simp add: run_snoc)
  have body': "\<forall>n. loader_body (loader (objs w' ! this)) n = LoaderReturnsPromise"
    unfolding w' using step_keeps_loader [OF bound, of "Load this"] body by (simp add: run_snoc)
  have before: "invocations (run init h) this \<le> 1"
    using loaded_once [OF bound body] by auto
  obtain p where c: "c = Return (JPromise p)" and p: "promise (objs w' ! this) = JPromise p"
  proof (cases rule: load_cases [of "run init h" this])
    case started
    then show ?thesis using that call world_ok_promise [OF world_ok_reach bound] by auto
  next
    case (throws x)
    then show ?thesis using body by simp
  next
    case returns
    then show ?thesis using that call bound by auto
  qed
  have one: "invocations w' this = 1"
    using loaded_once [OF bound' [unfolded w'] body' [unfolded w']] p unfolding w' by auto
  note s = run_started [OF bound' p, of t]
  have ok: "world_ok (run w' t)" unfolding w' by (simp add: world_ok_run world_ok_reach)
  have boundt: "this < length (objs (run w' t))"
    using run_keeps_loader [OF bound'] by simp
  have "state (promises (run w' (t @ t')) ! p) = state (promises (run w' t) ! p)"
    if "state (promises (run w' t) ! p) \<noteq> Pending"
    using run_settled [OF ok boundt _ that, of t'] s by (simp add: run_append)
  then show ?thesis using before one s c by (simp add: load_started)
qed

theorem single_flight_witness:
  "(0::nat) < length (objs (run init [New loaderA]))
   \<and> (\<forall>n. loader_body (loader (objs (run init [New loaderA]) ! 0)) n = LoaderReturnsPromise)
   \<and> invocations (run (snd (load (run init [New loaderA]) 0))
        [Load 0, Load 0, Settle 0 (Resolves (JVal ''cats'')), Load 0]) 0 = 1
   \<and> fst (load (run init [New loaderA]) 0) = Return (JPromise 0)
   \<and> fst (load (run (snd (load (run init [New loaderA]) 0))
        [Load 0, Load 0, Settle 0 (Resolves (JVal ''cats'')), Load 0]) 0) = Return (JPromise 0)
   \<and> state (promises (run (snd (load (run init [New loaderA]) 0))
        ([Load 0, Load 0, Settle 0 (Resolves (JVal ''cats'')), Load 0] @ [Settle 0 (Rejects JNull), Load 0])) ! 0)
       = Fulfilled (JVal ''cats'')"
  using single_flight [of 0 "[New loaderA]" "fst (load (run init [New loaderA]) 0)"
      "snd (load (run init [New loaderA]) 0)"
      "[Load 0, Load 0, Settle 0 (Resolves (JVal ''cats'')), Load 0]"
      "[Settle 0 (Rejects JNull), Load 0]"]
  by (simp add: eval)

text \<open>Two calls of \<open>load()\<close> on a Resource whose loader throws invoke the loader twice.\<close>

theorem single_flight_counterexample:
  "\<not> invocations (run init [New thrower, Load 0, Load 0]) 0 \<le> 1"
  by (simp add: eval)

text \<open>
  C2. Registry uniqueness. In a group \<open>g\<close> of any reachable store, \<open>get(key, lA)\<close>
  followed by \<open>get(key, lB)\<close> returns the same \<open>Resource\<close> both times. The second call
  constructs nothing and neither call invokes a loader. If the key was absent, the
  Resource carries \<open>lA\<close>; whatever happens afterwards (\<open>t\<close>), every loader invocation
  made through this Resource is one of its own loader, so \<open>lB\<close> is never invoked through
  it. The key stays bound to this one instance for ever: every later \<open>get(key, l)\<close>
  returns it and constructs nothing.
\<close>

theorem registry_uniqueness:
  assumes g: "g < length (groups (run init h))"
    and A: "group_get (run init h) g key lA = (r1, w1)"
    and B: "group_get w1 g key lB = (r2, w2)"
  shows "r2 = r1 \<and>
         objs w2 = objs w1 \<and> calls w2 = calls (run init h) \<and>
         ((groups (run init h) ! g) key = None \<longrightarrow> loader (objs w2 ! r1) = lA) \<and>
         (\<forall>c \<in> set (calls (run w2 t)). fst c = r1 \<longrightarrow> snd c = loader_name (loader (objs w2 ! r1))) \<and>
         (groups (run w2 t) ! g) key = Some r1 \<and>
         fst (group_get (run w2 t) g key l) = r1 \<and>
         objs (snd (group_get (run w2 t) g key l)) = objs (run w2 t)"
proof -
  define w where "w = run init h"
  have ok: "world_ok w" unfolding w_def by (rule world_ok_reach)
  have ok1: "world_ok w1"
    using world_ok_group_get [OF ok, of g key lA] g A by (simp add: w_def)
  have 1: "(groups w1 ! g) key = Some r1 \<and> g < length (groups w1) \<and> calls w1 = calls w \<and>
           r1 < length (objs w1) \<and> ((groups w ! g) key = None \<longrightarrow> loader (objs w1 ! r1) = lA)"
  proof (cases "(groups w ! g) key")
    case None
    then show ?thesis using A g by (auto simp: w_def group_get_absent)
  next
    case (Some r0)
    then have "r0 \<in> ran (groups w ! g)" by (auto simp: ran_def)
    then have "r0 < length (objs w)" using ok g by (simp add: world_ok_def w_def)
    then show ?thesis using A g Some by (auto simp: w_def group_get_present)
  qed
  then have 2: "r2 = r1 \<and> w2 = w1\<lparr>console := console w1 @ [key]\<rparr>"
    using B by (simp add: group_get_present)
  have ok2: "world_ok w2"
    using world_ok_group_get [OF ok1, of g key lB] 1 B by simp
  have b: "g < length (groups w2)" "(groups w2 ! g) key = Some r1" "r1 < length (objs w2)"
    using 1 2 by simp_all
  have bt: "(groups (run w2 t) ! g) key = Some r1"
    using run_keeps_binding [OF b(1,2)] by simp
  have okt: "world_ok (run w2 t)" using ok2 by (rule world_ok_run)
  have lt: "loader (objs (run w2 t) ! r1) = loader (objs w2 ! r1)"
    using run_keeps_loader [OF b(3)] by simp
  have "\<forall>c \<in> set (calls (run w2 t)). fst c = r1 \<longrightarrow> snd c = loader_name (loader (objs w2 ! r1))"
    using okt lt by (auto simp: world_ok_def)
  then show ?thesis using 1 2 bt by (simp add: group_get_present w_def)
qed

theorem registry_uniqueness_witness:
  "(0::nat) < length (groups (run init [CreateGroup]))
   \<and> fst (group_get (snd (group_get (run init [CreateGroup]) 0 ''k'' loaderA)) 0 ''k'' loaderB)
       = fst (group_get (run init [CreateGroup]) 0 ''k'' loaderA)
   \<and> loader (objs (snd (group_get (snd (group_get (run init [CreateGroup]) 0 ''k'' loaderA)) 0 ''k'' loaderB)) ! 0)
       = loaderA
   \<and> calls (run (snd (group_get (snd (group_get (run init [CreateGroup]) 0 ''k'' loaderA)) 0 ''k'' loaderB))
                         [Load 0, Settle 0 (Resolves (JVal ''cats'')), Load 0]) = [(0, ''loaderA'')]"
  using registry_uniqueness [of 0 "[CreateGroup]" "''k''" loaderA
      "fst (group_get (run init [CreateGroup]) 0 ''k'' loaderA)"
      "snd (group_get (run init [CreateGroup]) 0 ''k'' loaderA)" loaderB
      "fst (group_get (snd (group_get (run init [CreateGroup]) 0 ''k'' loaderA)) 0 ''k'' loaderB)"
      "snd (group_get (snd (group_get (run init [CreateGroup]) 0 ''k'' loaderA)) 0 ''k'' loaderB)"
      "[Load 0, Settle 0 (Resolves (JVal ''cats'')), Load 0]" loaderB]
  by (simp add: eval)

text \<open>
  C3 (amended). A \<open>Resource\<close> whose handle \<open>p\<close> has rejected with \<open>e\<close> (the loader's
  promise rejected with \<open>e\<close> and the callback of \<open>catch\<close> has stored it), where \<open>e\<close> is
  neither \<open>null\<close> nor \<open>undefined\<close>: after any further events \<open>t\<close>, \<open>read()\<close> throws
  \<open>e\<close> itself and changes nothing, and the loader has not been invoked again. For a
  rejection with \<open>null\<close> or \<open>undefined\<close> the claim as the specification has it fails:
  the callback stores the reason all the same, the test \<open>this.error != null\<close> of
  \<open>read()\<close> fails, and \<open>read()\<close> throws the handle.
\<close>

theorem rejection_replayed:
  assumes "this < length (objs (run init h))"
    and "promise (objs (run init h) ! this) = JPromise p"
    and "state (promises (run init h) ! p) = Rejected e"
    and "\<not> nullish e"
  shows "read (run init (h @ t)) this = (Throw e, run init (h @ t)) \<and>
         invocations (run init (h @ t)) this = invocations (run init h) this"
proof -
  have st: "state (promises (run init h) ! p) \<noteq> Pending" using assms(3) by simp
  note s = settled_forever [OF assms(1,2) st, of t]
  note a = world_ok_started(4) [OF world_ok_reach assms(1,2)]
  have "result (objs (run init (h @ t)) ! this) = JNull" "error (objs (run init (h @ t)) ! this) = e"
    using s(1) a assms(3) by simp_all
  then show ?thesis using s(3) assms(4) by (simp add: read_def)
qed

theorem rejection_replayed_witness:
  "(0::nat) < length (objs (run init [New loaderA, Load 0, Settle 0 (Rejects (JVal ''network error''))]))
   \<and> promise (objs (run init [New loaderA, Load 0, Settle 0 (Rejects (JVal ''network error''))]) ! 0) = JPromise 0
   \<and> state (promises (run init [New loaderA, Load 0, Settle 0 (Rejects (JVal ''network error''))]) ! 0)
       = Rejected (JVal ''network error'')
   \<and> \<not> nullish (JVal ''network error'')
   \<and> fst (read (run init ([New loaderA, Load 0, Settle 0 (Rejects (JVal ''network error''))]
                            @ [Read 0, Load 0, Read 0])) 0) = Throw (JVal ''network error'')
   \<and> invocations (run init ([New loaderA, Load 0, Settle 0 (Rejects (JVal ''network error''))]
                            @ [Read 0, Load 0, Read 0])) 0 = 1"
  using rejection_replayed [of 0 "[New loaderA, Load 0, Settle 0 (Rejects (JVal ''network error''))]" 0
      "JVal ''network error''" "[Read 0, Load 0, Read 0]"]
  by (simp add: eval)

text \<open>
  After the loader's promise rejected with \<open>null\<close>, or with \<open>undefined\<close>, \<open>read()\<close> does
  not throw the rejection reason: it throws the rejected handle.
\<close>

theorem rejection_null_counterexample:
  "state (promises (run init [New loaderA, Load 0, Settle 0 (Rejects JNull)]) ! 0) = Rejected JNull
   \<and> error (objs (run init [New loaderA, Load 0, Settle 0 (Rejects JNull)]) ! 0) = JNull
   \<and> fst (read (run init [New loaderA, Load 0, Settle 0 (Rejects JNull)]) 0) = Throw (JPromise 0)
   \<and> fst (read (run init [New loaderA, Load 0, Settle 0 (Rejects JNull)]) 0) \<noteq> Throw JNull
   \<and> state (promises (run init [New loaderA, Load 0, Settle 0 (Rejects JUndefined)]) ! 0)
       = Rejected JUndefined
   \<and> error (objs (run init [New loaderA, Load 0, Settle 0 (Rejects JUndefined)]) ! 0) = JUndefined
   \<and> fst (read (run init [New loaderA, Load 0, Settle 0 (Rejects JUndefined)]) 0) = Throw (JPromise 0)
   \<and> fst (read (run init [New loaderA, Load 0, Settle 0 (Rejects JUndefined)]) 0) \<noteq> Throw JUndefined"
  by (simp add: eval)

text \<open>
  C4 (amended). A \<open>Resource\<close> that has resolved with the value \<open>v\<close>: after any further
  events \<open>t\<close>, \<open>load()\<close> returns the handle \<open>p\<close>, which is fulfilled with \<open>v\<close>, and
  changes nothing; the loader has not been invoked again; and \<open>read()\<close> returns \<open>v\<close>
  provided \<open>v\<close> is neither \<open>null\<close> nor \<open>undefined\<close>. For a value that is \<open>null\<close> the
  claim as the specification has it fails: \<open>read()\<close> throws the handle.
\<close>

theorem resolved_idempotent:
  assumes "this < length (objs (run init h))"
    and "promise (objs (run init h) ! this) = JPromise p"
    and "state (promises (run init h) ! p) = Fulfilled v"
  shows "load (run init (h @ t)) this = (Return (JPromise p), run init (h @ t)) \<and>
         state (promises (run init (h @ t)) ! p) = Fulfilled v \<and>
         invocations (run init (h @ t)) this = invocations (run init h) this \<and>
         (\<not> nullish v \<longrightarrow> read (run init (h @ t)) this = (Return v, run init (h @ t)))"
proof -
  have st: "state (promises (run init h) ! p) \<noteq> Pending" using assms(3) by simp
  note s = settled_forever [OF assms(1,2) st, of t]
  note a = world_ok_started(4) [OF world_ok_reach assms(1,2)]
  have "result (objs (run init (h @ t)) ! this) = v"
    "promise (objs (run init (h @ t)) ! this) = JPromise p"
    using s(1) a assms(2,3) by simp_all
  then show ?thesis using s(2,3) assms(3) by (simp add: read_def load_started)
qed

theorem resolved_idempotent_witness:
  "(0::nat) < length (objs (run init [New loaderA, Load 0, Settle 0 (Resolves (JVal ''cats''))]))
   \<and> promise (objs (run init [New loaderA, Load 0, Settle 0 (Resolves (JVal ''cats''))]) ! 0) = JPromise 0
   \<and> state (promises (run init [New loaderA, Load 0, Settle 0 (Resolves (JVal ''cats''))]) ! 0)
       = Fulfilled (JVal ''cats'')
   \<and> fst (load (run init ([New loaderA, Load 0, Settle 0 (Resolves (JVal ''cats''))] @ [Load 0, Read 0])) 0)
       = Return (JPromise 0)
   \<and> state (promises (run init ([New loaderA, Load 0, Settle 0 (Resolves (JVal ''cats''))] @ [Load 0, Read 0])) ! 0)
       = Fulfilled (JVal ''cats'')
   \<and> invocations (run init ([New loaderA, Load 0, Settle 0 (Resolves (JVal ''cats''))] @ [Load 0, Read 0])) 0 = 1
   \<and> fst (read (run init ([New loaderA, Load 0, Settle 0 (Resolves (JVal ''cats''))] @ [Load 0, Read 0])) 0)
       = Return (JVal ''cats'')"
  using resolved_idempotent [of 0 "[New loaderA, Load 0, Settle 0 (Resolves (JVal ''cats''))]" 0
      "JVal ''cats''" "[Load 0, Read 0]"]
  by (simp add: eval)

text \<open>After the loader resolved with \<open>null\<close>, \<open>read()\<close> does not return \<open>null\<close>.\<close>

theorem resolved_null_read_counterexample:
  "state (promises (run init [New loaderA, Load 0, Settle 0 (Resolves JNull)]) ! 0) = Fulfilled JNull
   \<and> fst (read (run init [New loaderA, Load 0, Settle 0 (Resolves JNull)]) 0) = Throw (JPromise 0)
   \<and> fst (read (run init [New loaderA, Load 0, Settle 0 (Resolves JNull)]) 0) \<noteq> Return JNull"
  by (simp add: eval)

text \<open>
  C5. A \<open>Resource\<close> in the pending state (its \<open>promise\<close> field holds the handle \<open>p\<close>
  that \<open>load\<close> stored, and \<open>p\<close> has not settled), in any store that a history can reach:
  \<open>read()\<close> throws the handle \<open>p\<close> itself, the very handle that \<open>load()\<close> returns. It
  returns nothing, and what it throws is neither \<open>null\<close> nor an error.
\<close>

theorem read_while_pending:
  assumes "this < length (objs (run init h))"
    and "promise (objs (run init h) ! this) = JPromise p"
    and "state (promises (run init h) ! p) = Pending"
  shows "read (run init h) this = (Throw (JPromise p), run init h) \<and>
         load (run init h) this = (Return (JPromise p), run init h)"
  using pending_probe(1) [OF assms] assms(2) by (simp add: load_started)

theorem read_while_pending_witness:
  "(0::nat) < length (objs (run init [New loaderA, Load 0]))
   \<and> promise (objs (run init [New loaderA, Load 0]) ! 0) = JPromise 0
   \<and> state (promises (run init [New loaderA, Load 0]) ! 0) = Pending
   \<and> read (run init [New loaderA, Load 0]) 0 = (Throw (JPromise 0), run init [New loaderA, Load 0])
   \<and> load (run init [New loaderA, Load 0]) 0 = (Return (JPromise 0), run init [New loaderA, Load 0])"
  using read_while_pending [of 0 "[New loaderA, Load 0]" 0]
  by (simp add: eval)

text \<open>
  C6 (amended). In any reachable store \<open>get()\<close> returns, never throws, and leaves the
  store as it is (so it starts no load). It returns the stored value exactly when the
  Resource has resolved with a value that is neither \<open>null\<close> nor \<open>undefined\<close>, and
  \<open>undefined\<close> in every other case: no promise yet, a pending promise, a rejected one, or
  one fulfilled with \<open>null\<close> or \<open>undefined\<close>. In that last case the claim as the
  specification has it fails: the Resource is resolved and \<open>get()\<close> gives the absent
  result.
\<close>

theorem get_peeks:
  assumes "this < length (objs (run init h))"
  shows "get (run init h) this =
           (Return (case promise (objs (run init h) ! this) of
                      JPromise p \<Rightarrow>
                        (case state (promises (run init h) ! p) of
                           Fulfilled v \<Rightarrow> if nullish v then JUndefined else v
                         | _ \<Rightarrow> JUndefined)
                    | _ \<Rightarrow> JUndefined),
            run init h)"
proof -
  consider "promise (objs (run init h) ! this) = JNull"
    | p where "promise (objs (run init h) ! this) = JPromise p"
    using world_ok_promise [OF world_ok_reach assms] by blast
  then show ?thesis
  proof cases
    case 1
    then show ?thesis
      using res_ok_unstarted [OF world_ok_reach assms] by (simp add: get_def)
  next
    case (2 p)
    have "agrees (state (promises (run init h) ! p)) (objs (run init h) ! this)"
      using world_ok_started(4) [OF world_ok_reach assms 2] .
    then show ?thesis using 2
      by (cases "state (promises (run init h) ! p)") (simp_all add: get_def)
  qed
qed

theorem get_peeks_witness:
  "(0::nat) < length (objs (run init [New loaderA, Load 0, Settle 0 (Resolves (JVal ''cats''))]))
   \<and> get (run init [New loaderA, Load 0, Settle 0 (Resolves (JVal ''cats''))]) 0
       = (Return (JVal ''cats''), run init [New loaderA, Load 0, Settle 0 (Resolves (JVal ''cats''))])"
  using get_peeks [of 0 "[New loaderA, Load 0, Settle 0 (Resolves (JVal ''cats''))]"]
  by (simp add: eval)

text \<open>
  After the loader resolved with \<open>null\<close>, \<open>get()\<close> returns \<open>undefined\<close>, as it does for
  a pending Resource, and not the stored \<open>null\<close>.
\<close>

theorem get_resolved_null_counterexample:
  "promise (objs (run init [New loaderA, Load 0, Settle 0 (Resolves JNull)]) ! 0) = JPromise 0
   \<and> state (promises (run init [New loaderA, Load 0, Settle 0 (Resolves JNull)]) ! 0) = Fulfilled JNull
   \<and> result (objs (run init [New loaderA, Load 0, Settle 0 (Resolves JNull)]) ! 0) = JNull
   \<and> fst (get (run init [New loaderA, Load 0, Settle 0 (Resolves JNull)]) 0) = Return JUndefined
   \<and> fst (get (run init [New loaderA, Load 0, Settle 0 (Resolves JNull)]) 0) \<noteq> Return JNull
   \<and> fst (get (run init [New loaderA, Load 0, Settle 0 (Resolves JNull)]) 0)
       = fst (get (run init [New loaderA, Load 0]) 0)"
  by (simp add: eval)

text \<open>
  C7. The registry's \<open>get(key, l)\<close>, in any reachable store, invokes no loader and
  creates no promise. After it has returned the Resource \<open>r\<close>, and as long as nobody
  calls \<open>load()\<close> on \<open>r\<close>, the number of loader invocations of \<open>r\<close> is what it was
  before the call; for a Resource that the call constructed, it is zero and the Resource
  has no promise.
\<close>

theorem registry_get_does_not_load:
  assumes "g < length (groups (run init h))"
    and "group_get (run init h) g key l = (r, w')"
    and "Load r \<notin> set t"
  shows "calls w' = calls (run init h) \<and>
         promises w' = promises (run init h) \<and>
         invocations (run w' t) r = invocations (run init h) r \<and>
         ((groups (run init h) ! g) key = None \<longrightarrow>
            promise (objs w' ! r) = JNull \<and> invocations (run w' t) r = 0)"
proof -
  have c: "calls w' = calls (run init h)" and p: "promises w' = promises (run init h)"
    using assms(2)
    by (cases "(groups (run init h) ! g) key"; auto simp: group_get_present group_get_absent)+
  have i: "invocations (run w' t) r = invocations (run init h) r"
    using run_invocations [OF assms(3), of w'] c by (simp add: invocations_def)
  have "promise (objs w' ! r) = JNull \<and> invocations (run init h) r = 0"
    if "(groups (run init h) ! g) key = None"
  proof -
    have "r = length (objs (run init h))" "promise (objs w' ! r) = JNull"
      using assms(2) that by (auto simp: group_get_absent)
    then show ?thesis using world_ok_unborn [OF world_ok_reach, of r h] by simp
  qed
  then show ?thesis using c p i by simp
qed

theorem registry_get_does_not_load_witness:
  "(0::nat) < length (groups (run init [CreateGroup]))
   \<and> group_get (run init [CreateGroup]) 0 ''dataset/42'' loaderA
       = (0, snd (group_get (run init [CreateGroup]) 0 ''dataset/42'' loaderA))
   \<and> Load 0 \<notin> set [Get 0, Read 0, GroupGet 0 ''dataset/42'' loaderB]
   \<and> calls (snd (group_get (run init [CreateGroup]) 0 ''dataset/42'' loaderA)) = []
   \<and> promises (snd (group_get (run init [CreateGroup]) 0 ''dataset/42'' loaderA)) = []
   \<and> invocations (run (snd (group_get (run init [CreateGroup]) 0 ''dataset/42'' loaderA))
        [Get 0, Read 0, GroupGet 0 ''dataset/42'' loaderB]) 0 = 0
   \<and> (groups (run init [CreateGroup]) ! 0) ''dataset/42'' = None"
  using registry_get_does_not_load [of 0 "[CreateGroup]" "''dataset/42''" loaderA 0
      "snd (group_get (run init [CreateGroup]) 0 ''dataset/42'' loaderA)"
      "[Get 0, Read 0, GroupGet 0 ''dataset/42'' loaderB]"]
  by (simp add: eval)

text \<open>
  C8. A \<open>Resource\<close> whose loader resolved with \<open>null\<close> or \<open>undefined\<close>: after any
  further events \<open>t\<close>, \<open>get()\<close> returns \<open>undefined\<close> and \<open>read()\<close> throws the handle
  \<open>p\<close>, which is already fulfilled. These are the answers that \<open>get()\<close> and \<open>read()\<close>
  give at any point \<open>h'\<close> where the same Resource is pending.
\<close>

theorem null_resolution_looks_pending:
  assumes "this < length (objs (run init h))"
    and "promise (objs (run init h) ! this) = JPromise p"
    and "state (promises (run init h) ! p) = Fulfilled v"
    and "nullish v"
  shows "get (run init (h @ t)) this = (Return JUndefined, run init (h @ t)) \<and>
         read (run init (h @ t)) this = (Throw (JPromise p), run init (h @ t)) \<and>
         state (promises (run init (h @ t)) ! p) = Fulfilled v \<and>
         (this < length (objs (run init h')) \<and>
          promise (objs (run init h') ! this) = JPromise p \<and>
          state (promises (run init h') ! p) = Pending \<longrightarrow>
            fst (get (run init h') this) = fst (get (run init (h @ t)) this) \<and>
            fst (read (run init h') this) = fst (read (run init (h @ t)) this))"
proof -
  have st: "state (promises (run init h) ! p) \<noteq> Pending" using assms(3) by simp
  note s = settled_forever [OF assms(1,2) st, of t]
  note a = world_ok_started(4) [OF world_ok_reach assms(1,2)]
  have "result (objs (run init (h @ t)) ! this) = v"
    "error (objs (run init (h @ t)) ! this) = JNull"
    "promise (objs (run init (h @ t)) ! this) = JPromise p"
    using s(1) a assms(2,3) by simp_all
  then have "get (run init (h @ t)) this = (Return JUndefined, run init (h @ t))"
    "read (run init (h @ t)) this = (Throw (JPromise p), run init (h @ t))"
    using assms(4) by (simp_all add: read_def get_def)
  then show ?thesis using s(2) assms(3) pending_probe [of this h' p] by simp
qed

theorem null_resolution_looks_pending_witness:
  "(0::nat) < length (objs (run init [New loaderA, Load 0, Settle 0 (Resolves JNull)]))
   \<and> promise (objs (run init [New loaderA, Load 0, Settle 0 (Resolves JNull)]) ! 0) = JPromise 0
   \<and> state (promises (run init [New loaderA, Load 0, Settle 0 (Resolves JNull)]) ! 0) = Fulfilled JNull
   \<and> nullish (JNull :: string jsval)
   \<and> fst (get (run init ([New loaderA, Load 0, Settle 0 (Resolves JNull)] @ [Read 0, Load 0])) 0)
       = Return JUndefined
   \<and> fst (read (run init ([New loaderA, Load 0, Settle 0 (Resolves JNull)] @ [Read 0, Load 0])) 0)
       = Throw (JPromise 0)
   \<and> state (promises (run init [New loaderA, Load 0]) ! 0) = Pending
   \<and> fst (get (run init [New loaderA, Load 0]) 0) = Return JUndefined
   \<and> fst (read (run init [New loaderA, Load 0]) 0) = Throw (JPromise 0)"
  using null_resolution_looks_pending [of 0 "[New loaderA, Load 0, Settle 0 (Resolves JNull)]" 0
      JNull "[Read 0, Load 0]" "[New loaderA, Load 0]"]
  by (simp add: eval)

text \<open>
  C9. A \<open>Resource\<close> on which \<open>load()\<close> has never been called, at any point of any
  history: \<open>read()\<close> throws \<open>null\<close>, the initial value of the field \<open>promise\<close>. What it
  throws is no handle and no error object.
\<close>

theorem read_before_load:
  assumes "this < length (objs (run init h))" and "Load this \<notin> set h"
  shows "read (run init h) this = (Throw JNull, run init h)"
  using res_ok_unstarted [OF world_ok_reach assms(1) never_loaded [OF assms]]
    never_loaded [OF assms]
  by (simp add: read_def)

theorem read_before_load_witness:
  "(0::nat) < length (objs (run init [CreateGroup, GroupGet 0 ''k'' loaderA, Get 0, Read 0]))
   \<and> Load 0 \<notin> set [CreateGroup, GroupGet 0 ''k'' loaderA, Get 0, Read 0]
   \<and> fst (read (run init [CreateGroup, GroupGet 0 ''k'' loaderA, Get 0, Read 0]) 0) = Throw JNull"
  using read_before_load [of 0 "[CreateGroup, GroupGet 0 ''k'' loaderA, Get 0, Read 0]"]
  by (simp add: eval)

text \<open>
  C10. A call of \<open>load()\<close> on a \<open>Resource\<close> without a promise whose loader throws \<open>x\<close>
  synchronously: \<open>load()\<close> throws \<open>x\<close>, no field of any Resource is written (the
  \<open>promise\<close> field is still \<open>null\<close>) and no promise is created; the loader has been
  invoked once more, and the next call of \<open>load()\<close> invokes it again.
\<close>

theorem loader_throws_synchronously:
  assumes "this < length (objs w)"
    and "nullish (promise (objs w ! this))"
    and "loader_body (loader (objs w ! this)) (length (calls w)) = LoaderThrows x"
  shows "fst (load w this) = Throw x \<and>
         objs (snd (load w this)) = objs w \<and>
         promises (snd (load w this)) = promises w \<and>
         invocations (snd (load w this)) this = Suc (invocations w this) \<and>
         invocations (snd (load (snd (load w this)) this)) this = Suc (Suc (invocations w this))"
proof -
  define w1 where "w1 = w\<lparr>calls := calls w @ [(this, loader_name (loader (objs w ! this)))]\<rparr>"
  have 1: "load w this = (Throw x, w1)"
    unfolding w1_def using assms(2,3) by (rule load_throws)
  have n: "nullish (promise (objs w1 ! this))" using assms(2) by (simp add: w1_def)
  have i: "invocations w1 this = Suc (invocations w this)"
    by (simp add: w1_def invocations_def)
  have "invocations (snd (load w1 this)) this = Suc (invocations w1 this)"
    by (cases rule: load_cases [of w1 this]) (use n in \<open>simp_all add: invocations_def\<close>)
  then show ?thesis using 1 i by (simp add: w1_def)
qed

theorem loader_throws_synchronously_witness:
  "(0::nat) < length (objs (run init [New thrower]))
   \<and> nullish (promise (objs (run init [New thrower]) ! 0))
   \<and> loader_body (loader (objs (run init [New thrower]) ! 0)) (length (calls (run init [New thrower])))
       = LoaderThrows (JVal ''boom'')
   \<and> fst (load (run init [New thrower]) 0) = Throw (JVal ''boom'')
   \<and> promise (objs (snd (load (run init [New thrower]) 0)) ! 0) = JNull
   \<and> invocations (snd (load (run init [New thrower]) 0)) 0 = 1
   \<and> invocations (snd (load (snd (load (run init [New thrower]) 0)) 0)) 0 = 2"
  using loader_throws_synchronously [of 0 "run init [New thrower]" "JVal ''boom''"]
  by (simp add: eval)

end
